theory Spec2Isabelle
  imports Main "HOL-Library.Sublist"
begin

section \<open>Tag extraction (\<open>extract_tag_content\<close> of \<open>utils.py\<close>)\<close>

text \<open>
  A Python \<open>str\<close> is modelled as a \<^typ>\<open>string\<close>, the list of its characters.
  The opening marker is the f-string \<^verbatim>\<open><{tag}>\<close>, the closing marker
  \<^verbatim>\<open></{tag}>\<close>.
\<close>

definition open_marker :: "string \<Rightarrow> string" where
  "open_marker tag = ''<'' @ tag @ ''>''"

definition close_marker :: "string \<Rightarrow> string" where
  "close_marker tag = ''</'' @ tag @ ''>''"

text \<open>
  Python's \<open>sub in s\<close> on strings: \<open>sub\<close> occurs at some position of \<open>s\<close>.
\<close>

fun str_contains :: "string \<Rightarrow> string \<Rightarrow> bool" where
  "str_contains sub [] = (sub = [])"
| "str_contains sub (c # cs) = (prefix sub (c # cs) \<or> str_contains sub cs)"

text \<open>
  The pattern of the source is \<^verbatim>\<open><{tag}>(.*?)</{tag}>\<close>, compiled with
  \<open>re.DOTALL\<close>. For a tag without pattern-special characters it is the literal opening
  marker, a lazy group of arbitrary characters (newlines too, under \<open>DOTALL\<close>) and the
  literal closing marker.

  \<open>lazy_group lit s\<close> is the part \<^verbatim>\<open>(.*?)lit\<close> tried at the head of \<open>s\<close>:
  the group first takes nothing and grows by one character each time the literal does not
  follow. The result is the captured group and the text left after the literal.
\<close>

fun lazy_group :: "string \<Rightarrow> string \<Rightarrow> (string \<times> string) option" where
  "lazy_group lit [] = (if lit = [] then Some ([], []) else None)"
| "lazy_group lit (c # cs) =
     (if prefix lit (c # cs) then Some ([], drop (length lit) (c # cs))
      else (case lazy_group lit cs of
              None \<Rightarrow> None
            | Some (captured, rest) \<Rightarrow> Some (c # captured, rest)))"

text \<open>One attempt of the whole pattern at the head of \<open>s\<close>.\<close>

definition match_here :: "string \<Rightarrow> string \<Rightarrow> (string \<times> string) option" where
  "match_here tag s =
     (if prefix (open_marker tag) s
      then lazy_group (close_marker tag) (drop (length (open_marker tag)) s)
      else None)"

lemma lazy_group_decomp:
  "lazy_group lit s = Some (captured, rest) \<Longrightarrow> s = captured @ lit @ rest"
proof (induction s arbitrary: captured)
  case Nil
  then show ?case by (simp split: if_splits)
next
  case (Cons c cs)
  show ?case
  proof (cases "prefix lit (c # cs)")
    case True
    with Cons.prems have "captured = []" "rest = drop (length lit) (c # cs)" by simp_all
    moreover from True obtain zs where "c # cs = lit @ zs" by (auto simp: prefix_def)
    ultimately show ?thesis by simp
  next
    case False
    with Cons.prems obtain cap' where
      "lazy_group lit cs = Some (cap', rest)" "captured = c # cap'"
      by (auto split: option.splits)
    with Cons.IH show ?thesis by simp
  qed
qed

lemma match_here_shorter:
  "match_here tag s = Some (captured, rest) \<Longrightarrow> length rest < length s"
proof -
  assume m: "match_here tag s = Some (captured, rest)"
  then have p: "prefix (open_marker tag) s"
    and l: "lazy_group (close_marker tag) (drop (length (open_marker tag)) s) = Some (captured, rest)"
    by (auto simp: match_here_def split: if_splits)
  from p obtain zs where s: "s = open_marker tag @ zs" by (auto simp: prefix_def)
  from l s have "zs = captured @ close_marker tag @ rest"
    by (simp add: lazy_group_decomp)
  with s show ?thesis by (simp add: open_marker_def)
qed

text \<open>
  \<open>re.findall\<close> with this pattern: the scan tries the pattern at the current position;
  a match contributes its group and the scan resumes after the match; otherwise the scan
  moves one character on, until the text is exhausted.
\<close>

function re_findall :: "string \<Rightarrow> string \<Rightarrow> string list" where
  "re_findall tag s =
     (case match_here tag s of
        Some (captured, rest) \<Rightarrow> captured # re_findall tag rest
      | None \<Rightarrow> (case s of [] \<Rightarrow> [] | c # cs \<Rightarrow> re_findall tag cs))"
  by pat_completeness auto
termination
  by (relation "measure (\<lambda>(tag, s). length s)") (auto dest: match_here_shorter)

declare re_findall.simps [simp del]

text \<open>
  The function itself. The parameter \<open>llm_response\<close> is rebound twice in the source; the
  rebindings are \<open>r1\<close> and \<open>r2\<close> here. \<open>matches[-1] if matches else None\<close> is the last
  element of a non-empty list.
\<close>

definition extract_tag_content :: "string \<Rightarrow> string \<Rightarrow> string option" where
  "extract_tag_content llm_response tag =
     (let r1 = (if \<not> str_contains (open_marker tag) llm_response
                then open_marker tag @ llm_response else llm_response);
          r2 = (if \<not> str_contains (close_marker tag) r1
                then r1 @ close_marker tag else r1);
          matches = re_findall tag r2;
          matches = filter (\<lambda>elem. elem \<noteq> []) matches
      in if matches \<noteq> [] then Some (last matches) else None)"

subsection \<open>Notions used to state the properties\<close>

text \<open>
  The pattern is built from the tag without escaping, so the scan above is the source's
  only for a tag that is a plain name: not empty, none of the characters that Python's
  \<open>re\<close> treats as special, and no angle bracket, the delimiter of the markers
  themselves. Every property below is stated for such a tag.
\<close>

definition pattern_special :: "char \<Rightarrow> bool" where
  "pattern_special c = (c \<in> set (''.^$*+?{}[]|()'' @ [CHR 0x5C]))"

definition tag_name :: "string \<Rightarrow> bool" where
  "tag_name tag =
     (tag \<noteq> [] \<and> list_all (\<lambda>c. \<not> pattern_special c \<and> c \<noteq> CHR ''<'' \<and> c \<noteq> CHR ''>'') tag)"

text \<open>
  The text after the two conditional rebindings of \<open>llm_response\<close>, and the value
  computed from the list of matches by the last two statements of the function.
\<close>

definition with_markers :: "string \<Rightarrow> string \<Rightarrow> string" where
  "with_markers tag llm_response =
     (let r1 = (if \<not> str_contains (open_marker tag) llm_response
                then open_marker tag @ llm_response else llm_response)
      in if \<not> str_contains (close_marker tag) r1 then r1 @ close_marker tag else r1)"

definition last_surviving :: "string list \<Rightarrow> string option" where
  "last_surviving matches =
     (let kept = filter (\<lambda>elem. elem \<noteq> []) matches
      in if kept \<noteq> [] then Some (last kept) else None)"

text \<open>
  A text seen as the scan sees it: a sequence of complete pairs, each with the text
  \<open>gap\<close> in front of its opening marker and the \<open>content\<close> between its markers,
  followed by a \<open>tail\<close>. In a well delimited sequence no gap holds an opening marker
  and no content holds a closing marker. \<open>has_pair\<close> says that somewhere in a text an
  opening marker is followed, later, by a closing marker.
\<close>

fun tagged_text :: "string \<Rightarrow> (string \<times> string) list \<Rightarrow> string \<Rightarrow> string" where
  "tagged_text tag [] tail = tail"
| "tagged_text tag ((gap, content) # ps) tail =
     gap @ open_marker tag @ content @ close_marker tag @ tagged_text tag ps tail"

definition well_delimited :: "string \<Rightarrow> (string \<times> string) list \<Rightarrow> bool" where
  "well_delimited tag ps =
     list_all (\<lambda>(gap, content). \<not> str_contains (open_marker tag) gap
                              \<and> \<not> str_contains (close_marker tag) content) ps"

definition has_pair :: "string \<Rightarrow> string \<Rightarrow> bool" where
  "has_pair tag s =
     (case lazy_group (open_marker tag) s of
        None \<Rightarrow> False
      | Some (before, rest) \<Rightarrow> str_contains (close_marker tag) rest)"

section \<open>Deserialisation (\<open>deserialize\<close> of \<open>utils.py\<close>)\<close>

text \<open>
  The call \<open>object_type.model_validate_json(value)\<close> returns the parsed object or raises
  \<open>ValidationError\<close>, the one exception the library documents for it. The exception is
  a value here, \<open>Inl (ValidationError err)\<close>, where \<open>err\<close> is the text that \<open>str\<close> gives
  for it in the f-string. The class \<open>object_type\<close> is the record of its class method.
  \<open>print\<close> appends its text and a newline to the standard output, which the function
  takes and gives back: it is the only state that the module touches.
\<close>

datatype error = ValidationError string

record 'a model_class =
  model_validate_json :: "string \<Rightarrow> error + 'a"

definition deserialize ::
  "string \<Rightarrow> 'a model_class \<Rightarrow> string \<Rightarrow> (error + 'a) \<times> string" where
  "deserialize value object_type stdout =
     (case model_validate_json object_type value of
        Inl (ValidationError err) \<Rightarrow>
          (Inl (ValidationError err), stdout @ ''Validation error: '' @ err @ [CHR 0x0A])
      | Inr parsed_object \<Rightarrow> (Inr parsed_object, stdout))"


subsection \<open>The validating library\<close>

text \<open>
  Modelled from the spec: \<open>BaseModel.model_validate_json\<close> belongs to Pydantic, a
  library outside this repository. The specification describes it as parsing the text as JSON and
  validating the document against the fields of the schema: required fields present,
  types conforming, nested objects validated recursively. What follows is that
  description made executable: JSON documents, a lexer and a parser for the JSON
  grammar, schemas, validation, and the class that \<open>deserialize\<close> receives.

  A JSON string is kept as the list of its code points, an escape \<^verbatim>\<open>\uXXXX\<close> as the
  number it denotes; a number with a fraction or an exponent is kept as written.
\<close>

datatype json =
    JNull
  | JBool bool
  | JInt int
  | JReal string
  | JString "nat list"
  | JArray "json list"
  | JObject "(nat list \<times> json) list"

text \<open>
  Modelled from the spec: the lexical grammar of JSON (white space, the six structural
  characters, strings with their escapes, numbers, and the three literal names). Each
  scalar lexer returns the value read and the text left after it.
\<close>

datatype token = LBrace | RBrace | LBracket | RBracket | Colon | Comma | Scalar json

definition is_ws :: "char \<Rightarrow> bool" where
  "is_ws c = (c \<in> set [CHR 0x20, CHR 0x09, CHR 0x0A, CHR 0x0D])"

definition is_digit :: "char \<Rightarrow> bool" where
  "is_digit c = (c \<in> set ''0123456789'')"

definition digits_value :: "string \<Rightarrow> nat" where
  "digits_value ds = foldl (\<lambda>acc c. 10 * acc + (of_char c - 48)) 0 ds"

definition hex_value :: "char \<Rightarrow> nat option" where
  "hex_value c =
     (if is_digit c then Some (of_char c - 48)
      else if c \<in> set ''abcdef'' then Some (of_char c - 87)
      else if c \<in> set ''ABCDEF'' then Some (of_char c - 55)
      else None)"

definition hex4 :: "string \<Rightarrow> nat option" where
  "hex4 cs =
     (case map hex_value (take 4 cs) of
        [Some a, Some b, Some c, Some d] \<Rightarrow> Some (((a * 16 + b) * 16 + c) * 16 + d)
      | _ \<Rightarrow> None)"

definition simple_escape :: "char \<Rightarrow> nat option" where
  "simple_escape e =
     (if e = CHR 0x22 then Some 0x22
      else if e = CHR 0x5C then Some 0x5C
      else if e = CHR ''/'' then Some 0x2F
      else if e = CHR ''b'' then Some 0x08
      else if e = CHR ''f'' then Some 0x0C
      else if e = CHR ''n'' then Some 0x0A
      else if e = CHR ''r'' then Some 0x0D
      else if e = CHR ''t'' then Some 0x09
      else None)"

fun lex_string :: "string \<Rightarrow> (nat list \<times> string) option" where
  "lex_string [] = None"
| "lex_string (c # cs) =
     (if c = CHR 0x22 then Some ([], cs)
      else if c = CHR 0x5C then
        (case cs of
           [] \<Rightarrow> None
         | e # cs' \<Rightarrow>
             if e = CHR ''u'' then
               (case hex4 cs' of
                  None \<Rightarrow> None
                | Some n \<Rightarrow> map_option (\<lambda>(str, rest). (n # str, rest)) (lex_string (drop 4 cs')))
             else
               (case simple_escape e of
                  None \<Rightarrow> None
                | Some n \<Rightarrow> map_option (\<lambda>(str, rest). (n # str, rest)) (lex_string cs')))
      else if (of_char c :: nat) < 0x20 then None
      else map_option (\<lambda>(str, rest). (of_char c # str, rest)) (lex_string cs))"


definition digits1 :: "string \<Rightarrow> (string \<times> string) option" where
  "digits1 s =
     (let ds = takeWhile is_digit s
      in if ds = [] then None else Some (ds, dropWhile is_digit s))"

definition int_part :: "string \<Rightarrow> (string \<times> string) option" where
  "int_part s = (if prefix ''0'' s then Some (''0'', tl s) else digits1 s)"

definition frac_part :: "string \<Rightarrow> (bool \<times> string) option" where
  "frac_part s =
     (if prefix ''.'' s
      then (case digits1 (tl s) of None \<Rightarrow> None | Some (ds, rest) \<Rightarrow> Some (True, rest))
      else Some (False, s))"

definition exp_part :: "string \<Rightarrow> (bool \<times> string) option" where
  "exp_part s =
     (if prefix ''e'' s \<or> prefix ''E'' s
      then (case digits1 (if prefix ''+'' (tl s) \<or> prefix ''-'' (tl s) then tl (tl s) else tl s) of
              None \<Rightarrow> None
            | Some (ds, rest) \<Rightarrow> Some (True, rest))
      else Some (False, s))"

definition lex_number :: "string \<Rightarrow> (json \<times> string) option" where
  "lex_number s =
     (let negative = prefix ''-'' s
      in case int_part (if negative then tl s else s) of
           None \<Rightarrow> None
         | Some (ds, s2) \<Rightarrow>
             (case frac_part s2 of
                None \<Rightarrow> None
              | Some (has_frac, s3) \<Rightarrow>
                  (case exp_part s3 of
                     None \<Rightarrow> None
                   | Some (has_exp, rest) \<Rightarrow>
                       Some (if has_frac \<or> has_exp
                             then JReal (take (length s - length rest) s)
                             else JInt ((if negative then - 1 else 1) * int (digits_value ds)),
                             rest))))"

lemma digits1_shorter: "digits1 s = Some (ds, rest) \<Longrightarrow> length rest < length s"
proof -
  assume a: "digits1 s = Some (ds, rest)"
  then have ne: "takeWhile is_digit s \<noteq> []" and r: "rest = dropWhile is_digit s"
    by (simp_all add: digits1_def Let_def split: if_splits)
  have "length s = length (takeWhile is_digit s) + length (dropWhile is_digit s)"
    by (metis length_append takeWhile_dropWhile_id)
  moreover from ne obtain x xs where "takeWhile is_digit s = x # xs"
    by (cases "takeWhile is_digit s") auto
  ultimately have "length s = Suc (length xs) + length (dropWhile is_digit s)"
    by (simp only: list.size length_Cons)
  with r show ?thesis by (simp only: less_add_Suc2)
qed

lemma int_part_shorter: "int_part s = Some (ds, rest) \<Longrightarrow> length rest < length s"
proof (cases "prefix ''0'' s")
  case True
  assume "int_part s = Some (ds, rest)"
  with True have "rest = tl s" by (simp add: int_part_def)
  moreover from True have "s \<noteq> []" by auto
  ultimately show ?thesis by simp
next
  case False
  assume "int_part s = Some (ds, rest)"
  with False have "digits1 s = Some (ds, rest)" by (simp add: int_part_def)
  then show ?thesis by (rule digits1_shorter)
qed

lemma frac_part_shorter: "frac_part s = Some (b, rest) \<Longrightarrow> length rest \<le> length s"
proof (cases "prefix ''.'' s")
  case True
  assume "frac_part s = Some (b, rest)"
  with True obtain ds where "digits1 (tl s) = Some (ds, rest)"
    by (auto simp: frac_part_def split: option.splits)
  then have "length rest < length (tl s)" by (rule digits1_shorter)
  then show ?thesis by simp
next
  case False
  assume "frac_part s = Some (b, rest)"
  with False show ?thesis by (simp add: frac_part_def)
qed

lemma exp_part_shorter: "exp_part s = Some (b, rest) \<Longrightarrow> length rest \<le> length s"
proof (cases "prefix ''e'' s \<or> prefix ''E'' s")
  case True
  let ?s' = "if prefix ''+'' (tl s) \<or> prefix ''-'' (tl s) then tl (tl s) else tl s"
  assume "exp_part s = Some (b, rest)"
  with True obtain ds where "digits1 ?s' = Some (ds, rest)"
    unfolding exp_part_def by (simp only: if_True split: option.splits) auto
  then have "length rest < length ?s'" by (rule digits1_shorter)
  moreover have "length ?s' \<le> length s" by simp
  ultimately show ?thesis by linarith
next
  case False
  assume "exp_part s = Some (b, rest)"
  with False show ?thesis by (simp add: exp_part_def)
qed

lemma lex_number_shorter:
  assumes "lex_number s = Some (num, rest)"
  shows "length rest < length s"
proof -
  let ?s1 = "if prefix ''-'' s then tl s else s"
  from assms obtain ds s2 b1 s3 b2 where
    i: "int_part ?s1 = Some (ds, s2)" and f: "frac_part s2 = Some (b1, s3)"
    and e: "exp_part s3 = Some (b2, rest)"
    unfolding lex_number_def Let_def by (simp split: option.splits prod.splits)
  have "length ?s1 \<le> length s" by simp
  with int_part_shorter [OF i] frac_part_shorter [OF f] exp_part_shorter [OF e]
  show ?thesis by linarith
qed

lemma lex_string_shorter: "lex_string s = Some (str, rest) \<Longrightarrow> length rest < length s"
proof (induction s arbitrary: str rule: lex_string.induct)
  case 1
  then show ?case by simp
next
  case (2 c cs)
  show ?case
  proof (cases "c = CHR 0x22")
    case True
    with "2.prems" show ?thesis by simp
  next
    case nq: False
    show ?thesis
    proof (cases "c = CHR 0x5C")
      case True
      with nq "2.prems" obtain e cs' where cs: "cs = e # cs'" by (cases cs) auto
      show ?thesis
      proof (cases "e = CHR ''u''")
        case u: True
        with nq True cs "2.prems" obtain n str' where
          "hex4 cs' = Some n" "lex_string (drop 4 cs') = Some (str', rest)"
          by (auto split: option.splits)
        with "2.IH"(1) [OF nq True cs u] have "length rest < length (drop 4 cs')" by blast
        with cs show ?thesis by simp
      next
        case nu: False
        with nq True cs "2.prems" obtain n str' where
          "simple_escape e = Some n" "lex_string cs' = Some (str', rest)"
          by (auto split: option.splits)
        with "2.IH"(2) [OF nq True cs nu] have "length rest < length cs'" by blast
        with cs show ?thesis by simp
      qed
    next
      case False
      with nq "2.prems" obtain str' where
        c: "\<not> (of_char c :: nat) < 0x20" and "lex_string cs = Some (str', rest)"
        by (auto split: if_splits)
      with "2.IH"(3) [OF nq False c] have "length rest < length cs" by blast
      then show ?thesis by simp
    qed
  qed
qed

function lex :: "string \<Rightarrow> token list option" where
  "lex [] = Some []"
| "lex (c # cs) =
     (if is_ws c then lex cs
      else if c = CHR ''{'' then map_option ((#) LBrace) (lex cs)
      else if c = CHR ''}'' then map_option ((#) RBrace) (lex cs)
      else if c = CHR ''['' then map_option ((#) LBracket) (lex cs)
      else if c = CHR '']'' then map_option ((#) RBracket) (lex cs)
      else if c = CHR '':'' then map_option ((#) Colon) (lex cs)
      else if c = CHR '','' then map_option ((#) Comma) (lex cs)
      else if c = CHR 0x22 then
        (case lex_string cs of
           None \<Rightarrow> None
         | Some (str, rest) \<Rightarrow> map_option ((#) (Scalar (JString str))) (lex rest))
      else if prefix ''null'' (c # cs) then map_option ((#) (Scalar JNull)) (lex (drop 3 cs))
      else if prefix ''true'' (c # cs) then map_option ((#) (Scalar (JBool True))) (lex (drop 3 cs))
      else if prefix ''false'' (c # cs) then map_option ((#) (Scalar (JBool False))) (lex (drop 4 cs))
      else
        (case lex_number (c # cs) of
           None \<Rightarrow> None
         | Some (num, rest) \<Rightarrow> map_option ((#) (Scalar num)) (lex rest)))"
  by pat_completeness auto
termination
proof (relation "measure length")
  fix c :: char and cs x2 x y
  assume "lex_string cs = Some x2" "(x, y) = x2"
  then have "lex_string cs = Some (x, y)" by simp
  then have "length y < length cs" by (rule lex_string_shorter)
  then show "(y, c # cs) \<in> measure length" by simp
next
  fix c :: char and cs x2 x y
  assume "lex_number (c # cs) = Some x2" "(x, y) = x2"
  then have "lex_number (c # cs) = Some (x, y)" by simp
  then have "length y < length (c # cs)" by (rule lex_number_shorter)
  then show "(y, c # cs) \<in> measure length" by simp
qed simp_all

text \<open>
  Modelled from the spec: the parser of JSON texts, a machine that reads one token at a
  time. Its stack holds the arrays and objects still open, with the elements and members
  read so far in reverse; its mode says what may come next. A text is a JSON document
  when the tokens are consumed with one complete value and an empty stack.
\<close>

datatype frame = In_array "json list" | In_object "(nat list \<times> json) list" "nat list option"

datatype mode = Want_value bool | Want_key bool | Want_colon | Have json

definition step :: "mode \<Rightarrow> frame list \<Rightarrow> token \<Rightarrow> (mode \<times> frame list) option" where
  "step m st t =
     (case m of
        Want_value may_close \<Rightarrow>
          (case t of
             Scalar v \<Rightarrow> Some (Have v, st)
           | LBracket \<Rightarrow> Some (Want_value True, In_array [] # st)
           | LBrace \<Rightarrow> Some (Want_key True, In_object [] None # st)
           | RBracket \<Rightarrow>
               (case st of
                  In_array [] # st' \<Rightarrow> if may_close then Some (Have (JArray []), st') else None
                | _ \<Rightarrow> None)
           | _ \<Rightarrow> None)
      | Want_key may_close \<Rightarrow>
          (case (t, st) of
             (Scalar (JString k), In_object ms None # st') \<Rightarrow>
               Some (Want_colon, In_object ms (Some k) # st')
           | (RBrace, In_object ms None # st') \<Rightarrow>
               (if may_close then Some (Have (JObject []), st') else None)
           | _ \<Rightarrow> None)
      | Want_colon \<Rightarrow> (case t of Colon \<Rightarrow> Some (Want_value False, st) | _ \<Rightarrow> None)
      | Have v \<Rightarrow>
          (case (st, t) of
             (In_array es # st', Comma) \<Rightarrow> Some (Want_value False, In_array (v # es) # st')
           | (In_array es # st', RBracket) \<Rightarrow> Some (Have (JArray (rev (v # es))), st')
           | (In_object ms (Some k) # st', Comma) \<Rightarrow>
               Some (Want_key False, In_object ((k, v) # ms) None # st')
           | (In_object ms (Some k) # st', RBrace) \<Rightarrow>
               Some (Have (JObject (rev ((k, v) # ms))), st')
           | _ \<Rightarrow> None))"

fun run :: "mode \<Rightarrow> frame list \<Rightarrow> token list \<Rightarrow> json option" where
  "run m st [] = (case (m, st) of (Have v, []) \<Rightarrow> Some v | _ \<Rightarrow> None)"
| "run m st (t # ts) =
     (case step m st t of None \<Rightarrow> None | Some (m', st') \<Rightarrow> run m' st' ts)"

definition parse_json :: "string \<Rightarrow> json option" where
  "parse_json s = (case lex s of None \<Rightarrow> None | Some ts \<Rightarrow> run (Want_value False) [] ts)"

text \<open>
  Modelled from the spec: a schema is a list of fields, each with a name, a type and the
  mark of being required; a type is a scalar type or a nested schema. Validation builds
  the structured object field by field. A required field must be present; a field that
  is not required and is absent or \<open>null\<close> becomes \<open>VNone\<close>; a value must be of the
  type of its field; when a key occurs twice the later occurrence counts; keys outside
  the schema are ignored. The first failure is the error, named after the field.
\<close>

datatype ty = TInt | TStr | TBool | TModel "field list"
  and field = Field string ty bool

datatype obj =
    VInt int
  | VStr "nat list"
  | VBool bool
  | VNone
  | VModel "(string \<times> obj) list"

definition lookup_key :: "(nat list \<times> json) list \<Rightarrow> string \<Rightarrow> json option" where
  "lookup_key members name = map_of (rev members) (map of_char name)"

fun validate :: "ty \<Rightarrow> json \<Rightarrow> string + obj"
  and validate_fields :: "field list \<Rightarrow> (nat list \<times> json) list \<Rightarrow> string + (string \<times> obj) list"
  where
  "validate TInt j =
     (case j of JInt n \<Rightarrow> Inr (VInt n) | _ \<Rightarrow> Inl ''Input should be a valid integer'')"
| "validate TStr j =
     (case j of JString s \<Rightarrow> Inr (VStr s) | _ \<Rightarrow> Inl ''Input should be a valid string'')"
| "validate TBool j =
     (case j of JBool b \<Rightarrow> Inr (VBool b) | _ \<Rightarrow> Inl ''Input should be a valid boolean'')"
| "validate (TModel fs) j =
     (case j of
        JObject members \<Rightarrow>
          (case validate_fields fs members of
             Inl e \<Rightarrow> Inl e
           | Inr kvs \<Rightarrow> Inr (VModel kvs))
      | _ \<Rightarrow> Inl ''Input should be an object'')"
| "validate_fields [] members = Inr []"
| "validate_fields (Field name t req # fs) members =
     (case (case lookup_key members name of
              None \<Rightarrow> if req then Inl (name @ '': Field required'') else Inr VNone
            | Some j \<Rightarrow>
                if j = JNull \<and> \<not> req then Inr VNone
                else (case validate t j of
                        Inl e \<Rightarrow> Inl (name @ '': '' @ e)
                      | Inr v \<Rightarrow> Inr v)) of
        Inl e \<Rightarrow> Inl e
      | Inr v \<Rightarrow>
          (case validate_fields fs members of
             Inl e \<Rightarrow> Inl e
           | Inr kvs \<Rightarrow> Inr ((name, v) # kvs)))"

text \<open>
  Modelled from the spec: the class of a schema, whose \<open>model_validate_json\<close> fails
  with \<open>ValidationError\<close> when the text is not valid JSON or the document fails
  validation, and returns the structured object otherwise.
\<close>

definition pydantic_model :: "field list \<Rightarrow> obj model_class" where
  "pydantic_model fs =
     \<lparr>model_validate_json = (\<lambda>value.
        case parse_json value of
          None \<Rightarrow> Inl (ValidationError ''Invalid JSON'')
        | Some j \<Rightarrow>
            (case validate (TModel fs) j of
               Inl e \<Rightarrow> Inl (ValidationError e)
             | Inr v \<Rightarrow> Inr v))\<rparr>"

text \<open>
  Modelled from the spec: a structured object matching a schema is fully populated: it
  has exactly the fields of the schema, in order, each holding a value of the type of its
  field, or \<open>VNone\<close> for a field that is not required.
\<close>

fun conforms :: "ty \<Rightarrow> obj \<Rightarrow> bool"
  and conforms_fields :: "field list \<Rightarrow> (string \<times> obj) list \<Rightarrow> bool"
  where
  "conforms TInt v = (case v of VInt n \<Rightarrow> True | _ \<Rightarrow> False)"
| "conforms TStr v = (case v of VStr s \<Rightarrow> True | _ \<Rightarrow> False)"
| "conforms TBool v = (case v of VBool b \<Rightarrow> True | _ \<Rightarrow> False)"
| "conforms (TModel fs) v = (case v of VModel kvs \<Rightarrow> conforms_fields fs kvs | _ \<Rightarrow> False)"
| "conforms_fields [] kvs = (kvs = [])"
| "conforms_fields (Field name t req # fs) kvs =
     (case kvs of
        [] \<Rightarrow> False
      | (k, v) # kvs' \<Rightarrow>
          k = name \<and> ((\<not> req \<and> v = VNone) \<or> conforms t v) \<and> conforms_fields fs kvs')"

section \<open>Substrings and the lazy group\<close>

lemma str_contains_iff: "str_contains sub s \<longleftrightarrow> (\<exists>a b. s = a @ sub @ b)"
proof (induction s)
  case Nil
  then show ?case by auto
next
  case (Cons c cs)
  show ?case
  proof
    assume "str_contains sub (c # cs)"
    then consider "prefix sub (c # cs)" | "str_contains sub cs" by auto
    then show "\<exists>a b. c # cs = a @ sub @ b"
    proof cases
      case 1
      then obtain b where "c # cs = sub @ b" by (auto simp: prefix_def)
      then have "c # cs = [] @ sub @ b" by simp
      then show ?thesis by blast
    next
      case 2
      with Cons.IH obtain a b where "cs = a @ sub @ b" by blast
      then have "c # cs = (c # a) @ sub @ b" by simp
      then show ?thesis by blast
    qed
  next
    assume "\<exists>a b. c # cs = a @ sub @ b"
    then obtain a b where ab: "c # cs = a @ sub @ b" by blast
    show "str_contains sub (c # cs)"
    proof (cases a)
      case Nil
      with ab have "prefix sub (c # cs)" by (simp add: prefix_def)
      then show ?thesis by simp
    next
      case (Cons x a')
      with ab have "cs = a' @ sub @ b" by simp
      with Cons.IH have "str_contains sub cs" by blast
      then show ?thesis by simp
    qed
  qed
qed

lemma str_contains_self: "str_contains sub (a @ sub @ b)"
  by (auto simp: str_contains_iff)

lemma str_contains_append_left: "str_contains sub y \<Longrightarrow> str_contains sub (x @ y)"
  unfolding str_contains_iff
proof -
  assume "\<exists>a b. y = a @ sub @ b"
  then obtain a b where "y = a @ sub @ b" by blast
  then have "x @ y = (x @ a) @ sub @ b" by simp
  then show "\<exists>a b. x @ y = a @ sub @ b" by blast
qed

lemma str_contains_append_right: "str_contains sub x \<Longrightarrow> str_contains sub (x @ y)"
  unfolding str_contains_iff
proof -
  assume "\<exists>a b. x = a @ sub @ b"
  then obtain a b where "x = a @ sub @ b" by blast
  then have "x @ y = a @ sub @ (b @ y)" by simp
  then show "\<exists>a b. x @ y = a @ sub @ b" by blast
qed

lemma lazy_group_None_iff: "lazy_group lit s = None \<longleftrightarrow> \<not> str_contains lit s"
  by (induction s) (auto split: option.splits)

lemma lazy_group_captured_free:
  "lazy_group lit s = Some (captured, rest) \<Longrightarrow> lit \<noteq> [] \<Longrightarrow> \<not> str_contains lit captured"
proof (induction s arbitrary: captured)
  case Nil
  then show ?case by (simp split: if_splits)
next
  case (Cons c cs)
  show ?case
  proof (cases "prefix lit (c # cs)")
    case True
    with Cons.prems show ?thesis by simp
  next
    case False
    with Cons.prems obtain cap' where
      l: "lazy_group lit cs = Some (cap', rest)" and c: "captured = c # cap'"
      by (auto split: option.splits)
    from l have cs: "cs = cap' @ lit @ rest" by (rule lazy_group_decomp)
    have "\<not> prefix lit (c # cap')"
    proof
      assume "prefix lit (c # cap')"
      then have "prefix lit ((c # cap') @ lit @ rest)" by (rule prefix_prefix)
      with cs False show False by simp
    qed
    moreover from Cons.IH [OF l Cons.prems(2)] have "\<not> str_contains lit cap'" .
    ultimately show ?thesis using c by simp
  qed
qed

text \<open>A literal whose first character does not occur again in it cannot overlap itself.\<close>

lemma prefix_overlap:
  assumes "prefix lit (x @ lit @ y)" "\<not> prefix lit x" "x \<noteq> []"
  shows "hd lit \<in> set (tl lit)"
proof -
  from assms(1,2) have "prefix x lit"
    by (metis prefix_append prefix_same_cases prefix_def append_prefixD)
  then obtain w where w: "lit = x @ w" by (auto simp: prefix_def)
  with assms(2) have "w \<noteq> []" by auto
  note xne = assms(3)
  from assms(1) w have "prefix (x @ w) (x @ lit @ y)" by simp
  then have "prefix w (lit @ y)" by simp
  then have "prefix w lit \<or> prefix lit w" by (metis prefix_append prefix_order.dual_order.refl prefix_same_cases prefix_def)
  moreover have "length w < length lit" using w xne by simp
  ultimately have "prefix w lit" by (metis prefix_length_le not_le prefix_order.order_refl)
  then have "hd w = hd lit" using \<open>w \<noteq> []\<close> by (auto simp: prefix_def)
  moreover have "hd w \<in> set (tl lit)" using w xne \<open>w \<noteq> []\<close> by (cases x) auto
  ultimately show ?thesis by simp
qed

lemma lazy_group_first:
  assumes "\<not> str_contains lit x" "lit \<noteq> []" "hd lit \<notin> set (tl lit)"
  shows "lazy_group lit (x @ lit @ y) = Some (x, y)"
  using assms(1)
proof (induction x)
  case Nil
  with assms(2) show ?case by (cases lit) auto
next
  case (Cons c cs)
  then have np: "\<not> prefix lit (c # cs)" and nc: "\<not> str_contains lit cs" by simp_all
  have "\<not> prefix lit ((c # cs) @ lit @ y)"
    using prefix_overlap [of lit "c # cs" y] np assms(3) by blast
  with Cons.IH [OF nc] show ?case by simp
qed

section \<open>The scan\<close>

lemma open_marker_not_Nil [simp]: "open_marker tag \<noteq> []"
  by (simp add: open_marker_def)

lemma close_marker_not_Nil [simp]: "close_marker tag \<noteq> []"
  by (simp add: close_marker_def)

lemma open_marker_hd: "CHR ''<'' \<notin> set tag \<Longrightarrow> hd (open_marker tag) \<notin> set (tl (open_marker tag))"
  by (simp add: open_marker_def)

lemma close_marker_hd: "CHR ''<'' \<notin> set tag \<Longrightarrow> hd (close_marker tag) \<notin> set (tl (close_marker tag))"
  by (simp add: close_marker_def)

lemma match_here_Nil [simp]: "match_here tag [] = None"
  by (simp add: match_here_def)

lemma re_findall_Nil [simp]: "re_findall tag [] = []"
  by (simp add: re_findall.simps)

lemma re_findall_Cons:
  "re_findall tag (c # cs) =
     (case match_here tag (c # cs) of
        Some (captured, rest) \<Rightarrow> captured # re_findall tag rest
      | None \<Rightarrow> re_findall tag cs)"
  by (subst re_findall.simps) (simp split: option.splits)

lemma re_findall_match:
  "match_here tag s = Some (captured, rest) \<Longrightarrow> re_findall tag s = captured # re_findall tag rest"
  by (subst re_findall.simps) simp

lemma re_findall_skip:
  "match_here tag (c # cs) = None \<Longrightarrow> re_findall tag (c # cs) = re_findall tag cs"
  by (subst re_findall.simps) simp

lemma match_here_open:
  "match_here tag (open_marker tag @ z) = lazy_group (close_marker tag) z"
  by (simp add: match_here_def)

lemma re_findall_no_pair:
  "\<forall>a z. s = a @ open_marker tag @ z \<longrightarrow> \<not> str_contains (close_marker tag) z \<Longrightarrow>
   re_findall tag s = []"
proof (induction s)
  case Nil
  show ?case by simp
next
  case (Cons c cs)
  have "match_here tag (c # cs) = None"
  proof (cases "prefix (open_marker tag) (c # cs)")
    case True
    then obtain z where z: "c # cs = open_marker tag @ z" by (auto simp: prefix_def)
    then have "c # cs = [] @ open_marker tag @ z" by simp
    with Cons.prems have "\<not> str_contains (close_marker tag) z" by blast
    then have "lazy_group (close_marker tag) z = None" by (simp add: lazy_group_None_iff)
    with z show ?thesis by (simp add: match_here_open)
  next
    case False
    then show ?thesis by (simp add: match_here_def)
  qed
  moreover have "re_findall tag cs = []"
  proof (rule Cons.IH, intro allI impI)
    fix a z
    assume "cs = a @ open_marker tag @ z"
    then have "c # cs = (c # a) @ open_marker tag @ z" by simp
    with Cons.prems show "\<not> str_contains (close_marker tag) z" by blast
  qed
  ultimately show ?case by (simp add: re_findall_skip)
qed

lemma re_findall_no_open:
  "\<not> str_contains (open_marker tag) s \<Longrightarrow> re_findall tag s = []"
  by (rule re_findall_no_pair) (auto simp: str_contains_iff)

lemma re_findall_no_close:
  assumes "\<not> str_contains (close_marker tag) s"
  shows "re_findall tag s = []"
proof (rule re_findall_no_pair, intro allI impI)
  fix a z
  assume "s = a @ open_marker tag @ z"
  then have "s = (a @ open_marker tag) @ z" by simp
  with assms show "\<not> str_contains (close_marker tag) z"
    using str_contains_append_left by blast
qed

lemma re_findall_gap:
  assumes "\<not> str_contains (open_marker tag) gap" "CHR ''<'' \<notin> set tag"
  shows "re_findall tag (gap @ open_marker tag @ z) = re_findall tag (open_marker tag @ z)"
  using assms(1)
proof (induction gap)
  case Nil
  show ?case by simp
next
  case (Cons c cs)
  then have np: "\<not> prefix (open_marker tag) (c # cs)"
    and nc: "\<not> str_contains (open_marker tag) cs" by simp_all
  have "\<not> prefix (open_marker tag) ((c # cs) @ open_marker tag @ z)"
    using prefix_overlap [of "open_marker tag" "c # cs" z] np open_marker_hd [OF assms(2)]
    by blast
  then have "match_here tag (c # cs @ open_marker tag @ z) = None"
    by (simp add: match_here_def)
  with Cons.IH [OF nc] show ?case by (simp add: re_findall_skip)
qed

lemma re_findall_pair:
  assumes "\<not> str_contains (open_marker tag) gap" "\<not> str_contains (close_marker tag) content"
    and "CHR ''<'' \<notin> set tag"
  shows "re_findall tag (gap @ open_marker tag @ content @ close_marker tag @ rest)
         = content # re_findall tag rest"
proof -
  have "lazy_group (close_marker tag) (content @ close_marker tag @ rest) = Some (content, rest)"
    using assms(2) close_marker_hd [OF assms(3)] by (intro lazy_group_first) simp_all
  then have "match_here tag (open_marker tag @ content @ close_marker tag @ rest)
             = Some (content, rest)"
    by (simp add: match_here_open)
  then have "re_findall tag (open_marker tag @ content @ close_marker tag @ rest)
             = content # re_findall tag rest"
    by (rule re_findall_match)
  with re_findall_gap [OF assms(1,3)] show ?thesis by simp
qed

text \<open>The closing marker cannot begin inside the opening marker.\<close>

lemma close_not_prefix_open: "\<not> prefix (''/'' @ tag @ ''>'') (tag @ ''>'' @ s)"
  by (induction tag) auto

lemma no_close_across_open:
  assumes "\<not> str_contains (close_marker tag) s" "CHR ''<'' \<notin> set tag"
  shows "\<not> str_contains (close_marker tag) (open_marker tag @ s)"
proof -
  have tail: "\<not> str_contains (close_marker tag) (xs @ s)"
    if "CHR ''<'' \<notin> set xs" for xs
    using that
  proof (induction xs)
    case Nil
    with assms(1) show ?case by simp
  next
    case (Cons x xs)
    then have "x \<noteq> CHR ''<''" by auto
    then have "\<not> prefix (close_marker tag) (x # xs @ s)"
      by (simp add: close_marker_def)
    with Cons show ?case by simp
  qed
  have "\<not> prefix (close_marker tag) (open_marker tag @ s)"
    using close_not_prefix_open [of tag s] by (simp add: close_marker_def open_marker_def)
  moreover have "\<not> str_contains (close_marker tag) ((tag @ ''>'') @ s)"
    using assms(2) by (intro tail) simp
  ultimately show ?thesis by (simp add: open_marker_def)
qed

section \<open>Texts built from delimited pairs\<close>

lemma extract_tag_content_unfold:
  "extract_tag_content s tag = last_surviving (re_findall tag (with_markers tag s))"
  by (simp add: extract_tag_content_def with_markers_def last_surviving_def Let_def)

lemma tag_name_no_lt: "tag_name tag \<Longrightarrow> CHR ''<'' \<notin> set tag"
  by (auto simp: tag_name_def list_all_iff)

lemma lazy_group_suffix:
  "lazy_group lit s = Some (before, rest) \<Longrightarrow> s = a @ lit @ z \<Longrightarrow> suffix z rest"
proof (induction s arbitrary: before a)
  case Nil
  then show ?case by (auto split: if_splits)
next
  case (Cons c cs)
  show ?case
  proof (cases "prefix lit (c # cs)")
    case True
    with Cons.prems(1) have "rest = drop (length lit) (c # cs)" by simp
    with Cons.prems(2) have "rest = drop (length lit) ((a @ lit) @ z)" by simp
    then have "rest = drop (length lit) (a @ lit) @ z" by simp
    then show ?thesis by (simp add: suffix_def)
  next
    case False
    with Cons.prems(1) obtain b' where l: "lazy_group lit cs = Some (b', rest)"
      by (auto split: option.splits)
    from False Cons.prems(2) have "a \<noteq> []" by (auto simp: prefix_def)
    with Cons.prems(2) obtain a' where "cs = a' @ lit @ z" by (cases a) auto
    with Cons.IH [OF l] show ?thesis by blast
  qed
qed

lemma has_pair_iff:
  "has_pair tag s \<longleftrightarrow> (\<exists>a b c. s = a @ open_marker tag @ b @ close_marker tag @ c)"
proof
  assume "has_pair tag s"
  then obtain before rest where l: "lazy_group (open_marker tag) s = Some (before, rest)"
    and c: "str_contains (close_marker tag) rest"
    by (auto simp: has_pair_def split: option.splits)
  from c obtain b c' where "rest = b @ close_marker tag @ c'" by (auto simp: str_contains_iff)
  with lazy_group_decomp [OF l] show "\<exists>a b c. s = a @ open_marker tag @ b @ close_marker tag @ c"
    by blast
next
  assume "\<exists>a b c. s = a @ open_marker tag @ b @ close_marker tag @ c"
  then obtain a b c where s: "s = a @ open_marker tag @ b @ close_marker tag @ c" by blast
  then have "str_contains (open_marker tag) s" by (auto simp: str_contains_iff)
  then obtain before rest where l: "lazy_group (open_marker tag) s = Some (before, rest)"
    using lazy_group_None_iff [of "open_marker tag" s] by (cases "lazy_group (open_marker tag) s") auto
  from lazy_group_suffix [OF l s] have "suffix (b @ close_marker tag @ c) rest" .
  then obtain d where "rest = (d @ b) @ close_marker tag @ c" by (auto simp: suffix_def)
  then have "str_contains (close_marker tag) rest" by (simp only: str_contains_self)
  with l show "has_pair tag s" by (simp add: has_pair_def)
qed

lemma re_findall_no_has_pair: "\<not> has_pair tag s \<Longrightarrow> re_findall tag s = []"
proof (rule re_findall_no_pair, intro allI impI notI)
  fix a z
  assume np: "\<not> has_pair tag s" and s: "s = a @ open_marker tag @ z"
    and "str_contains (close_marker tag) z"
  then obtain b c where "z = b @ close_marker tag @ c" by (auto simp: str_contains_iff)
  with s have "s = a @ open_marker tag @ b @ close_marker tag @ c" by simp
  with np show False unfolding has_pair_iff by blast
qed

lemma re_findall_tagged_text:
  assumes "CHR ''<'' \<notin> set tag" "well_delimited tag ps"
  shows "re_findall tag (tagged_text tag ps tail) = map snd ps @ re_findall tag tail"
  using assms(2)
proof (induction ps)
  case Nil
  show ?case by simp
next
  case (Cons p ps)
  obtain gap content where p: "p = (gap, content)" by (cases p)
  with Cons.prems have g: "\<not> str_contains (open_marker tag) gap"
    and c: "\<not> str_contains (close_marker tag) content" and w: "well_delimited tag ps"
    by (simp_all add: well_delimited_def)
  from re_findall_pair [OF g c assms(1)] Cons.IH [OF w] p show ?case by simp
qed

lemma tagged_text_contains:
  assumes "ps \<noteq> []"
  shows "str_contains (open_marker tag) (tagged_text tag ps tail)"
    and "str_contains (close_marker tag) (tagged_text tag ps tail)"
proof -
  from assms obtain gap content ps' where ps: "ps = (gap, content) # ps'"
    by (cases ps) auto
  show "str_contains (open_marker tag) (tagged_text tag ps tail)"
    unfolding ps tagged_text.simps by (rule str_contains_self)
  have "tagged_text tag ps tail
        = (gap @ open_marker tag @ content) @ close_marker tag @ tagged_text tag ps' tail"
    by (simp add: ps)
  then show "str_contains (close_marker tag) (tagged_text tag ps tail)"
    by (simp only: str_contains_self)
qed

lemma with_markers_both:
  "str_contains (open_marker tag) s \<Longrightarrow> str_contains (close_marker tag) s \<Longrightarrow>
   with_markers tag s = s"
  by (simp add: with_markers_def)


lemma match_here_None_open:
  assumes "match_here tag (open_marker tag @ z) = None"
  shows "\<not> str_contains (close_marker tag) z"
  using assms by (simp add: match_here_open lazy_group_None_iff)

lemma no_pair_Cons:
  assumes "match_here tag (c # cs) = None" "\<not> has_pair tag cs"
  shows "\<not> has_pair tag (c # cs)"
proof
  assume "has_pair tag (c # cs)"
  then obtain a b d where s: "c # cs = a @ open_marker tag @ b @ close_marker tag @ d"
    unfolding has_pair_iff by blast
  show False
  proof (cases a)
    case Nil
    with s assms(1) have "\<not> str_contains (close_marker tag) (b @ close_marker tag @ d)"
      using match_here_None_open [of tag "b @ close_marker tag @ d"] by simp
    then show False using str_contains_self by blast
  next
    case (Cons x a')
    with s have "cs = a' @ open_marker tag @ b @ close_marker tag @ d" by simp
    with assms(2) show False unfolding has_pair_iff by blast
  qed
qed

lemma gap_Cons:
  assumes "match_here tag (c # gap @ open_marker tag @ content @ close_marker tag @ rest) = None"
    and "\<not> str_contains (open_marker tag) gap"
  shows "\<not> str_contains (open_marker tag) (c # gap)"
proof -
  have "\<not> prefix (open_marker tag) (c # gap)"
  proof
    assume "prefix (open_marker tag) (c # gap)"
    then obtain g2 where g: "c # gap = open_marker tag @ g2" by (auto simp: prefix_def)
    then have "c # gap @ open_marker tag @ content @ close_marker tag @ rest
               = open_marker tag @ (g2 @ open_marker tag @ content) @ close_marker tag @ rest"
      by (metis append.assoc append_Cons)
    with assms(1)
    have "\<not> str_contains (close_marker tag) ((g2 @ open_marker tag @ content) @ close_marker tag @ rest)"
      using match_here_None_open by metis
    then show False using str_contains_self by blast
  qed
  with assms(2) show ?thesis by simp
qed

text \<open>
  Every text is such a sequence, in the way the scan reads it: the hypotheses of the
  properties below that speak of \<open>tagged_text\<close> leave no text out.
\<close>

lemma tagged_text_decomposition:
  "\<exists>ps tail. s = tagged_text tag ps tail \<and> well_delimited tag ps \<and> \<not> has_pair tag tail
             \<and> re_findall tag s = map snd ps"
proof (induction tag s rule: re_findall.induct)
  case (1 tag s)
  show ?case
  proof (cases "match_here tag s")
    case (Some m)
    obtain captured rest where m: "m = (captured, rest)" by (cases m)
    from "1.IH"(2) [OF Some m [symmetric]] obtain ps tail where
      rest: "rest = tagged_text tag ps tail" and wd: "well_delimited tag ps"
      and np: "\<not> has_pair tag tail" and rf: "re_findall tag rest = map snd ps"
      by blast
    from Some m have p: "prefix (open_marker tag) s"
      and l: "lazy_group (close_marker tag) (drop (length (open_marker tag)) s) = Some (captured, rest)"
      by (auto simp: match_here_def split: if_splits)
    from p obtain zs where zs: "s = open_marker tag @ zs" by (auto simp: prefix_def)
    with l have "zs = captured @ close_marker tag @ rest" by (simp add: lazy_group_decomp)
    with zs rest have s: "s = tagged_text tag (([], captured) # ps) tail" by simp
    have "\<not> str_contains (close_marker tag) captured"
      using l by (rule lazy_group_captured_free) simp
    with wd have wd': "well_delimited tag (([], captured) # ps)"
      by (simp add: well_delimited_def)
    from Some m rf have "re_findall tag s = map snd (([], captured) # ps)"
      by (simp add: re_findall_match)
    with s wd' np show ?thesis by blast
  next
    case None
    show ?thesis
    proof (cases s)
      case Nil
      have "\<not> has_pair tag []" by (simp add: has_pair_def)
      moreover have "[] = tagged_text tag [] []" by simp
      moreover have "well_delimited tag []" by (simp add: well_delimited_def)
      ultimately show ?thesis using Nil by (metis list.simps(8) re_findall_Nil)
    next
      case (Cons c cs)
      from "1.IH"(1) [OF None Cons] obtain ps tail where
        cs: "cs = tagged_text tag ps tail" and wd: "well_delimited tag ps"
        and np: "\<not> has_pair tag tail" and rf: "re_findall tag cs = map snd ps"
        by blast
      from None Cons rf have rf': "re_findall tag s = map snd ps"
        by (simp add: re_findall_skip)
      show ?thesis
      proof (cases ps)
        case Nil
        with cs np None Cons have "\<not> has_pair tag s" by (simp add: no_pair_Cons)
        moreover have "s = tagged_text tag [] s" by simp
        moreover have "well_delimited tag []" by (simp add: well_delimited_def)
        ultimately show ?thesis using rf' Nil by metis
      next
        case (Cons p ps')
        obtain gap content where pc: "p = (gap, content)" by (cases p)
        from wd Cons pc have g: "\<not> str_contains (open_marker tag) gap"
          and k: "\<not> str_contains (close_marker tag) content" and wd': "well_delimited tag ps'"
          by (simp_all add: well_delimited_def)
        from cs Cons pc \<open>s = c # cs\<close>
        have s: "s = c # gap @ open_marker tag @ content @ close_marker tag @ tagged_text tag ps' tail"
          by simp
        with None g have "\<not> str_contains (open_marker tag) (c # gap)"
          using gap_Cons by metis
        with k wd' have "well_delimited tag ((c # gap, content) # ps')"
          by (simp add: well_delimited_def)
        moreover from s have "s = tagged_text tag ((c # gap, content) # ps') tail" by simp
        moreover from rf' Cons pc have "re_findall tag s = map snd ((c # gap, content) # ps')"
          by simp
        ultimately show ?thesis using np by blast
      qed
    qed
  qed
qed

text \<open>
  Why a tag name may hold no angle bracket: with the tag \<^verbatim>\<open>></\<close> the text
  \<^verbatim>\<open></>\<close> holds neither marker, but once the opening marker is put in front, its
  end and the text together read as the closing marker. So no closing marker is added,
  nothing matches, and the result is \<open>None\<close> for a text that is not empty.
\<close>

lemma overlapping_markers_example:
  "\<not> str_contains (open_marker ''></'') ''</>''
   \<and> \<not> str_contains (close_marker ''></'') ''</>''
   \<and> with_markers ''></'' ''</>'' = ''<></></>''
   \<and> extract_tag_content ''</>'' ''></'' = None"
  by code_simp

section \<open>Properties of tag extraction\<close>

text \<open>
  C1. For a tag name and a text that holds neither the opening nor the closing marker,
  both markers are put around the whole text, so the result is the whole text when it is
  not empty and \<open>None\<close> when it is empty.
\<close>

theorem extract_no_markers:
  assumes "tag_name tag"
    and "\<not> str_contains (open_marker tag) s" and "\<not> str_contains (close_marker tag) s"
  shows "extract_tag_content s tag = (if s = [] then None else Some s)"
proof -
  from assms(1) have lt: "CHR ''<'' \<notin> set tag" by (rule tag_name_no_lt)
  from no_close_across_open [OF assms(3) lt] assms(2)
  have w: "with_markers tag s = open_marker tag @ s @ close_marker tag"
    by (simp add: with_markers_def)
  have "re_findall tag ([] @ open_marker tag @ s @ close_marker tag @ []) = s # re_findall tag []"
    using assms(3) lt by (intro re_findall_pair) simp_all
  with w have "re_findall tag (with_markers tag s) = [s]" by simp
  then show ?thesis by (simp add: extract_tag_content_unfold last_surviving_def)
qed

theorem extract_no_markers_witness:
  "tag_name ''foo'' \<and> \<not> str_contains (open_marker ''foo'') ''no tags here''
   \<and> \<not> str_contains (close_marker ''foo'') ''no tags here''
   \<and> extract_tag_content ''no tags here'' ''foo'' = Some ''no tags here''
   \<and> extract_tag_content [] ''foo'' = None"
proof -
  have t: "tag_name ''foo''" by (simp add: tag_name_def pattern_special_def)
  have o: "\<not> str_contains (open_marker ''foo'') ''no tags here''"
    by (simp add: open_marker_def)
  have c: "\<not> str_contains (close_marker ''foo'') ''no tags here''"
    by (simp add: close_marker_def)
  have o': "\<not> str_contains (open_marker ''foo'') []" by simp
  have c': "\<not> str_contains (close_marker ''foo'') []" by simp
  from extract_no_markers [OF t o c] extract_no_markers [OF t o' c'] t o c
  show ?thesis by simp
qed

text \<open>
  C2. For a tag name and a text made of complete pairs, two or more of them with content
  that is not empty, followed by a tail without a further pair, the result is the content
  of the last pair whose content is not empty.
\<close>

theorem extract_last_pair:
  assumes "tag_name tag" and "well_delimited tag ps" and "\<not> has_pair tag tail"
    and "2 \<le> length (filter (\<lambda>content. content \<noteq> []) (map snd ps))"
  shows "extract_tag_content (tagged_text tag ps tail) tag
         = Some (last (filter (\<lambda>content. content \<noteq> []) (map snd ps)))"
proof -
  from assms(4) have ne: "ps \<noteq> []" by auto
  have k: "filter (\<lambda>content. content \<noteq> []) (map snd ps) \<noteq> []"
  proof
    assume "filter (\<lambda>content. content \<noteq> []) (map snd ps) = []"
    then have "length (filter (\<lambda>content. content \<noteq> []) (map snd ps)) = 0"
      by (simp only: list.size)
    with assms(4) show False by simp
  qed
  have "with_markers tag (tagged_text tag ps tail) = tagged_text tag ps tail"
    using tagged_text_contains [OF ne] by (rule with_markers_both)
  moreover have "re_findall tag (tagged_text tag ps tail) = map snd ps"
    using re_findall_tagged_text [OF tag_name_no_lt [OF assms(1)] assms(2)]
      re_findall_no_has_pair [OF assms(3)] by simp
  ultimately show ?thesis using k
    by (simp add: extract_tag_content_unfold last_surviving_def)
qed

theorem extract_last_pair_witness:
  "tag_name ''foo'' \<and> well_delimited ''foo'' [([], ''first''), ([], ''second'')]
   \<and> \<not> has_pair ''foo'' []
   \<and> 2 \<le> length (filter (\<lambda>content. content \<noteq> []) (map snd [([], ''first''), ([], ''second'')]))
   \<and> tagged_text ''foo'' [([], ''first''), ([], ''second'')] [] = ''<foo>first</foo><foo>second</foo>''
   \<and> extract_tag_content ''<foo>first</foo><foo>second</foo>'' ''foo'' = Some ''second''"
proof -
  have t: "tag_name ''foo''" by (simp add: tag_name_def pattern_special_def)
  have w: "well_delimited ''foo'' [([], ''first''), ([], ''second'')]"
    by (simp add: well_delimited_def open_marker_def close_marker_def)
  have h: "\<not> has_pair ''foo'' []" by (simp add: has_pair_def)
  have n: "2 \<le> length (filter (\<lambda>content. content \<noteq> []) (map snd [([], ''first''), ([], ''second'')]))"
    by simp
  have e: "tagged_text ''foo'' [([], ''first''), ([], ''second'')] [] = ''<foo>first</foo><foo>second</foo>''"
    by (simp add: open_marker_def close_marker_def)
  from extract_last_pair [OF t w h n] t w h n e show ?thesis by simp
qed

text \<open>
  C3. Matches with an empty group are discarded: for a tag name the result is \<open>None\<close>
  exactly when every match found in the text (with its synthesized markers) is empty, and
  the result is never the empty string.
\<close>

theorem extract_none_iff_all_empty:
  assumes "tag_name tag"
  shows "(extract_tag_content s tag = None
            \<longleftrightarrow> list_all (\<lambda>m. m = []) (re_findall tag (with_markers tag s)))
         \<and> extract_tag_content s tag \<noteq> Some []"
proof -
  let ?ms = "re_findall tag (with_markers tag s)"
  let ?kept = "filter (\<lambda>elem. elem \<noteq> []) ?ms"
  have e: "extract_tag_content s tag = (if ?kept \<noteq> [] then Some (last ?kept) else None)"
    by (simp add: extract_tag_content_unfold last_surviving_def)
  have "?kept = [] \<longleftrightarrow> list_all (\<lambda>m. m = []) ?ms"
    by (simp add: filter_empty_conv list_all_iff)
  moreover have "last ?kept \<noteq> []" if "?kept \<noteq> []"
  proof -
    from that have "last ?kept \<in> set ?kept" by (rule last_in_set)
    then show ?thesis by simp
  qed
  ultimately show ?thesis using e by auto
qed

theorem extract_none_iff_all_empty_witness:
  "tag_name ''foo''
   \<and> re_findall ''foo'' (with_markers ''foo'' ''<foo></foo>'') = [[]]
   \<and> extract_tag_content ''<foo></foo>'' ''foo'' = None"
proof -
  have t: "tag_name ''foo''" by (simp add: tag_name_def pattern_special_def)
  have m: "re_findall ''foo'' (with_markers ''foo'' ''<foo></foo>'') = [[]]"
    by (simp add: with_markers_def open_marker_def close_marker_def re_findall_Cons match_here_def)
  from extract_none_iff_all_empty [OF t, of "''<foo></foo>''"] m t show ?thesis by simp
qed

text \<open>
  C4. For a tag name and a text that holds the opening marker (first at the end of
  \<open>before\<close>) and no closing marker, the closing marker is appended to the end of the
  text, so the result is everything after the first opening marker, or \<open>None\<close> when
  nothing follows it.
\<close>

theorem extract_only_open:
  assumes "tag_name tag"
    and "lazy_group (open_marker tag) s = Some (before, after)"
    and "\<not> str_contains (close_marker tag) s"
  shows "with_markers tag s = s @ close_marker tag
         \<and> extract_tag_content s tag = (if after = [] then None else Some after)"
proof -
  from assms(1) have lt: "CHR ''<'' \<notin> set tag" by (rule tag_name_no_lt)
  from assms(2) have s: "s = before @ open_marker tag @ after" by (rule lazy_group_decomp)
  then have o: "str_contains (open_marker tag) s" by (simp only: str_contains_self)
  with assms(3) have w: "with_markers tag s = s @ close_marker tag"
    by (simp add: with_markers_def)
  have nb: "\<not> str_contains (open_marker tag) before"
    using assms(2) by (rule lazy_group_captured_free) simp
  have na: "\<not> str_contains (close_marker tag) after"
  proof
    assume "str_contains (close_marker tag) after"
    then have "str_contains (close_marker tag) ((before @ open_marker tag) @ after)"
      by (rule str_contains_append_left)
    with s assms(3) show False by simp
  qed
  have "re_findall tag (before @ open_marker tag @ after @ close_marker tag @ [])
        = after # re_findall tag []"
    using nb na lt by (rule re_findall_pair)
  with s w have "re_findall tag (with_markers tag s) = [after]" by simp
  with w show ?thesis by (simp add: extract_tag_content_unfold last_surviving_def)
qed

theorem extract_only_open_witness:
  "tag_name ''foo''
   \<and> lazy_group (open_marker ''foo'') ''<foo>only-open'' = Some ([], ''only-open'')
   \<and> \<not> str_contains (close_marker ''foo'') ''<foo>only-open''
   \<and> with_markers ''foo'' ''<foo>only-open'' = ''<foo>only-open</foo>''
   \<and> extract_tag_content ''<foo>only-open'' ''foo'' = Some ''only-open''"
proof -
  have t: "tag_name ''foo''" by (simp add: tag_name_def pattern_special_def)
  have l: "lazy_group (open_marker ''foo'') ''<foo>only-open'' = Some ([], ''only-open'')"
    by (simp add: open_marker_def)
  have c: "\<not> str_contains (close_marker ''foo'') ''<foo>only-open''"
    by (simp add: close_marker_def)
  from extract_only_open [OF t l c] t l c show ?thesis by (simp add: close_marker_def)
qed

text \<open>
  C9. A text of complete pairs, one of them at least with content, followed by an opening
  marker and trailing content without a closing marker: the text already holds a closing
  marker, none is synthesized, the unclosed section is no match, and the result is the
  content of the last complete pair whose content is not empty.
\<close>

theorem extract_ignores_unclosed:
  assumes "tag_name tag" and "well_delimited tag ps"
    and "filter (\<lambda>content. content \<noteq> []) (map snd ps) \<noteq> []"
    and "\<not> str_contains (close_marker tag) trailing"
  shows "with_markers tag (tagged_text tag ps (open_marker tag @ trailing))
           = tagged_text tag ps (open_marker tag @ trailing)
         \<and> extract_tag_content (tagged_text tag ps (open_marker tag @ trailing)) tag
           = Some (last (filter (\<lambda>content. content \<noteq> []) (map snd ps)))"
proof -
  let ?s = "tagged_text tag ps (open_marker tag @ trailing)"
  from assms(1) have lt: "CHR ''<'' \<notin> set tag" by (rule tag_name_no_lt)
  from assms(3) have ne: "ps \<noteq> []" by auto
  have w: "with_markers tag ?s = ?s"
    using tagged_text_contains [OF ne] by (rule with_markers_both)
  have "\<not> str_contains (close_marker tag) (open_marker tag @ trailing)"
    using assms(4) lt by (rule no_close_across_open)
  then have "re_findall tag (open_marker tag @ trailing) = []"
    by (rule re_findall_no_close)
  with re_findall_tagged_text [OF lt assms(2)] have "re_findall tag ?s = map snd ps" by simp
  with w assms(3) show ?thesis by (simp add: extract_tag_content_unfold last_surviving_def)
qed

theorem extract_ignores_unclosed_witness:
  "tag_name ''foo'' \<and> well_delimited ''foo'' [([], ''a'')]
   \<and> filter (\<lambda>content. content \<noteq> []) (map snd [([], ''a'')]) \<noteq> []
   \<and> \<not> str_contains (close_marker ''foo'') ''b''
   \<and> tagged_text ''foo'' [([], ''a'')] (open_marker ''foo'' @ ''b'') = ''<foo>a</foo><foo>b''
   \<and> extract_tag_content ''<foo>a</foo><foo>b'' ''foo'' = Some ''a''"
proof -
  have t: "tag_name ''foo''" by (simp add: tag_name_def pattern_special_def)
  have w: "well_delimited ''foo'' [([], ''a'')]"
    by (simp add: well_delimited_def open_marker_def close_marker_def)
  have k: "filter (\<lambda>content. content \<noteq> []) (map snd [([], ''a'')]) \<noteq> []" by simp
  have c: "\<not> str_contains (close_marker ''foo'') ''b''" by (simp add: close_marker_def)
  have e: "tagged_text ''foo'' [([], ''a'')] (open_marker ''foo'' @ ''b'') = ''<foo>a</foo><foo>b''"
    by (simp add: open_marker_def close_marker_def)
  from extract_ignores_unclosed [OF t w k c, unfolded e] t w k c e show ?thesis by simp
qed

text \<open>
  C10. For a tag name and a text that holds the closing marker (first at the end of
  \<open>before\<close>) and no opening marker, only the opening marker is put in front, so the
  result is the text before the first closing marker, or \<open>None\<close> when that is empty;
  what follows the closing marker is dropped.
\<close>

theorem extract_only_close:
  assumes "tag_name tag"
    and "\<not> str_contains (open_marker tag) s"
    and "lazy_group (close_marker tag) s = Some (before, after)"
  shows "with_markers tag s = open_marker tag @ s
         \<and> extract_tag_content s tag = (if before = [] then None else Some before)"
proof -
  from assms(3) have s: "s = before @ close_marker tag @ after" by (rule lazy_group_decomp)
  then have "str_contains (close_marker tag) s" by (simp only: str_contains_self)
  then have "str_contains (close_marker tag) (open_marker tag @ s)"
    by (rule str_contains_append_left)
  with assms(2) have w: "with_markers tag s = open_marker tag @ s"
    by (simp add: with_markers_def)
  have "\<not> str_contains (open_marker tag) after"
  proof
    assume "str_contains (open_marker tag) after"
    then have "str_contains (open_marker tag) ((before @ close_marker tag) @ after)"
      by (rule str_contains_append_left)
    with s assms(2) show False by simp
  qed
  then have r: "re_findall tag after = []" by (rule re_findall_no_open)
  have "match_here tag (open_marker tag @ s) = Some (before, after)"
    using assms(3) by (simp add: match_here_open)
  then have "re_findall tag (open_marker tag @ s) = before # re_findall tag after"
    by (rule re_findall_match)
  with r w have "re_findall tag (with_markers tag s) = [before]" by simp
  with w show ?thesis by (simp add: extract_tag_content_unfold last_surviving_def)
qed

theorem extract_only_close_witness:
  "tag_name ''foo'' \<and> \<not> str_contains (open_marker ''foo'') ''x</foo>y''
   \<and> lazy_group (close_marker ''foo'') ''x</foo>y'' = Some (''x'', ''y'')
   \<and> with_markers ''foo'' ''x</foo>y'' = ''<foo>x</foo>y''
   \<and> extract_tag_content ''x</foo>y'' ''foo'' = Some ''x''
   \<and> extract_tag_content ''</foo>y'' ''foo'' = None"
proof -
  have t: "tag_name ''foo''" by (simp add: tag_name_def pattern_special_def)
  have o: "\<not> str_contains (open_marker ''foo'') ''x</foo>y''" by (simp add: open_marker_def)
  have l: "lazy_group (close_marker ''foo'') ''x</foo>y'' = Some (''x'', ''y'')"
    by (simp add: close_marker_def)
  have o': "\<not> str_contains (open_marker ''foo'') ''</foo>y''" by (simp add: open_marker_def)
  have l': "lazy_group (close_marker ''foo'') ''</foo>y'' = Some ([], ''y'')"
    by (simp add: close_marker_def)
  from extract_only_close [OF t o l] extract_only_close [OF t o' l'] t o l
  show ?thesis by (simp add: open_marker_def)
qed

section \<open>Properties of deserialisation\<close>

lemma deserialize_result:
  "fst (deserialize value object_type out) = model_validate_json object_type value"
  by (simp add: deserialize_def split: sum.splits error.splits)

lemma pydantic_model_validate:
  "model_validate_json (pydantic_model fs) value =
     (case parse_json value of
        None \<Rightarrow> Inl (ValidationError ''Invalid JSON'')
      | Some j \<Rightarrow>
          (case validate (TModel fs) j of
             Inl e \<Rightarrow> Inl (ValidationError e)
           | Inr v \<Rightarrow> Inr v))"
  by (simp add: pydantic_model_def)


lemma validate_conforms:
  "validate t j = Inr v \<Longrightarrow> conforms t v"
  "validate_fields fs members = Inr kvs \<Longrightarrow> conforms_fields fs kvs"
proof (induction t j and fs members arbitrary: v and kvs rule: validate_validate_fields.induct)
  case (1 j)
  then show ?case by (cases j) auto
next
  case (2 j)
  then show ?case by (cases j) auto
next
  case (3 j)
  then show ?case by (cases j) auto
next
  case (4 fs j)
  from "4.prems" obtain members where j: "j = JObject members" by (cases j) auto
  with "4.prems" obtain kvs where "validate_fields fs members = Inr kvs" "v = VModel kvs"
    by (auto split: sum.splits)
  with "4.IH" [OF j] show ?case by simp
next
  case (5 members)
  then show ?case by simp
next
  case (6 name t req fs members)
  from "6.prems" obtain v kvs' where
    first: "(case lookup_key members name of
            None \<Rightarrow> if req then Inl (name @ '': Field required'') else Inr VNone
          | Some j \<Rightarrow>
              if j = JNull \<and> \<not> req then Inr VNone
              else (case validate t j of
                      Inl e \<Rightarrow> Inl (name @ '': '' @ e)
                    | Inr v \<Rightarrow> Inr v)) = Inr v"
    and others: "validate_fields fs members = Inr kvs'" and kvs: "kvs = (name, v) # kvs'"
    by (auto split: sum.splits)
  have "(\<not> req \<and> v = VNone) \<or> conforms t v"
  proof (cases "lookup_key members name")
    case None
    with first show ?thesis by (auto split: if_splits)
  next
    case (Some j)
    show ?thesis
    proof (cases "j = JNull \<and> \<not> req")
      case True
      with first Some show ?thesis by simp
    next
      case False
      with first Some have "validate t j = Inr v" by (auto split: sum.splits)
      with "6.IH"(1) [OF Some False] show ?thesis by simp
    qed
  qed
  moreover from "6.IH"(2) others first have "conforms_fields fs kvs'" by blast
  ultimately show ?case using kvs by simp
qed

text \<open>
  C5. With the library as the specification describes it, \<open>deserialize\<close> fails with a
  \<open>ValidationError\<close> exactly when the text is not valid JSON or the parsed document
  fails validation against the schema, and it returns an object exactly when the text
  parses and the document validates.
\<close>

theorem deserialize_fails_iff_invalid:
  "((\<exists>msg. fst (deserialize value (pydantic_model fs) out) = Inl (ValidationError msg))
      \<longleftrightarrow> (parse_json value = None
           \<or> (\<exists>j msg. parse_json value = Some j \<and> validate (TModel fs) j = Inl msg)))
   \<and> ((\<exists>obj. fst (deserialize value (pydantic_model fs) out) = Inr obj)
      \<longleftrightarrow> (\<exists>j obj. parse_json value = Some j \<and> validate (TModel fs) j = Inr obj))"
  by (auto simp: deserialize_result pydantic_model_validate split: option.splits sum.splits)

theorem deserialize_fails_iff_invalid_witness:
  \<open>parse_json ''not json'' = None
   \<and> (\<exists>msg. fst (deserialize ''not json'' (pydantic_model []) []) = Inl (ValidationError msg))
   \<and> parse_json ''{}'' = Some (JObject [])
   \<and> validate (TModel [Field ''a'' TInt True]) (JObject []) = Inl ''a: Field required''
   \<and> (\<exists>msg. fst (deserialize ''{}'' (pydantic_model [Field ''a'' TInt True]) [])
              = Inl (ValidationError msg))\<close>
proof -
  have p1: "parse_json ''not json'' = None" by code_simp
  have p2: "parse_json ''{}'' = Some (JObject [])" by code_simp
  have v2: "validate (TModel [Field ''a'' TInt True]) (JObject []) = Inl ''a: Field required''"
    by (simp add: lookup_key_def)
  from p1 have e1: "\<exists>msg. fst (deserialize ''not json'' (pydantic_model []) []) = Inl (ValidationError msg)"
    using deserialize_fails_iff_invalid [of "''not json''" "[]" "[]"] by blast
  from p2 v2
  have e2: "\<exists>msg. fst (deserialize ''{}'' (pydantic_model [Field ''a'' TInt True]) [])
              = Inl (ValidationError msg)"
    using deserialize_fails_iff_invalid [of "''{}''" "[Field ''a'' TInt True]" "[]"] by blast
  from p1 e1 p2 v2 e2 show ?thesis by blast
qed

text \<open>
  C6. For every class and text: when validation raises an error, \<open>deserialize\<close> writes
  one line that names it to the output and raises that same error; when validation
  returns an object, the object is returned and nothing is written.
\<close>

theorem deserialize_reports_and_reraises:
  "(model_validate_json object_type value = Inl err \<longrightarrow>
      (\<exists>msg. err = ValidationError msg
         \<and> deserialize value object_type out
             = (Inl err, out @ ''Validation error: '' @ msg @ [CHR 0x0A])))
   \<and> (model_validate_json object_type value = Inr obj \<longrightarrow>
        deserialize value object_type out = (Inr obj, out))"
  by (cases err) (simp add: deserialize_def)

theorem deserialize_reports_and_reraises_witness:
  \<open>model_validate_json (pydantic_model [Field ''a'' TInt True]) ''{}''
     = Inl (ValidationError ''a: Field required'')
   \<and> deserialize ''{}'' (pydantic_model [Field ''a'' TInt True]) ''earlier output''
     = (Inl (ValidationError ''a: Field required''),
        ''earlier output'' @ ''Validation error: a: Field required'' @ [CHR 0x0A])
   \<and> model_validate_json (pydantic_model [Field ''a'' TInt True]) ''{"a": 1}''
     = Inr (VModel [(''a'', VInt 1)])
   \<and> deserialize ''{"a": 1}'' (pydantic_model [Field ''a'' TInt True]) ''earlier output''
     = (Inr (VModel [(''a'', VInt 1)]), ''earlier output'')\<close>
proof -
  have p1: "parse_json ''{}'' = Some (JObject [])" by code_simp
  have p2: \<open>parse_json ''{"a": 1}'' = Some (JObject [([97], JInt 1)])\<close> by code_simp
  have m1: "model_validate_json (pydantic_model [Field ''a'' TInt True]) ''{}''
              = Inl (ValidationError ''a: Field required'')"
    by (simp add: pydantic_model_validate p1 lookup_key_def)
  have m2: \<open>model_validate_json (pydantic_model [Field ''a'' TInt True]) ''{"a": 1}''
              = Inr (VModel [(''a'', VInt 1)])\<close>
    by (simp add: pydantic_model_validate p2 lookup_key_def)
  from deserialize_reports_and_reraises
         [of "pydantic_model [Field ''a'' TInt True]" "''{}''"
             "ValidationError ''a: Field required''" "''earlier output''"] m1
  have d1: "deserialize ''{}'' (pydantic_model [Field ''a'' TInt True]) ''earlier output''
     = (Inl (ValidationError ''a: Field required''),
        ''earlier output'' @ ''Validation error: a: Field required'' @ [CHR 0x0A])"
    by simp
  from deserialize_reports_and_reraises
         [of "pydantic_model [Field ''a'' TInt True]" \<open>''{"a": 1}''\<close> _
             "''earlier output''" "VModel [(''a'', VInt 1)]"] m2
  have d2: \<open>deserialize ''{"a": 1}'' (pydantic_model [Field ''a'' TInt True]) ''earlier output''
     = (Inr (VModel [(''a'', VInt 1)]), ''earlier output'')\<close>
    by simp
  from m1 d1 m2 d2 show ?thesis by blast
qed

text \<open>
  C7. With the library as the specification describes it, a text that parses to a JSON
  document which validates against the schema makes \<open>deserialize\<close> return the object
  built by validation, and that object is fully populated and matches the schema.
\<close>

theorem deserialize_returns_conforming:
  assumes "parse_json value = Some j" and "validate (TModel fs) j = Inr obj"
  shows "deserialize value (pydantic_model fs) out = (Inr obj, out)
         \<and> conforms (TModel fs) obj"
proof -
  from assms have "model_validate_json (pydantic_model fs) value = Inr obj"
    by (simp add: pydantic_model_validate)
  then have "deserialize value (pydantic_model fs) out = (Inr obj, out)"
    by (simp add: deserialize_def)
  moreover from assms(2) have "conforms (TModel fs) obj" by (rule validate_conforms(1))
  ultimately show ?thesis by simp
qed

theorem deserialize_returns_conforming_witness:
  \<open>parse_json ''{"a": 1}'' = Some (JObject [([97], JInt 1)])
   \<and> validate (TModel [Field ''a'' TInt True]) (JObject [([97], JInt 1)])
       = Inr (VModel [(''a'', VInt 1)])
   \<and> deserialize ''{"a": 1}'' (pydantic_model [Field ''a'' TInt True]) []
       = (Inr (VModel [(''a'', VInt 1)]), [])
   \<and> conforms (TModel [Field ''a'' TInt True]) (VModel [(''a'', VInt 1)])
   \<and> map_of [(''a'', VInt 1)] ''a'' = Some (VInt 1)\<close>
proof -
  have p: \<open>parse_json ''{"a": 1}'' = Some (JObject [([97], JInt 1)])\<close> by code_simp
  have v: "validate (TModel [Field ''a'' TInt True]) (JObject [([97], JInt 1)])
             = Inr (VModel [(''a'', VInt 1)])"
    by (simp add: lookup_key_def)
  from deserialize_returns_conforming [OF p v, of "[]"] p v show ?thesis by simp
qed

end
